theory Spec2Isabelle
  imports Main "HOL-Library.AList" "HOL-Library.Sublist"
begin

section \<open>The hierarchical configuration store (sample_python_lib/config.py)\<close>

text \<open>
  The class \<^verbatim>\<open>Config\<close> keeps a tree of JSON-like values in the attribute
  \<^verbatim>\<open>_config\<close> and addresses it with dot-separated keys. The embedding below
  follows the methods of the class one by one. A Python value is a \<open>pyval\<close>; a
  dictionary is an association list in insertion order (a later assignment to a key that
  is present keeps its position, a new key is appended). Numbers are integers:
  floating-point values are outside the model. In-place mutation of a nested dictionary
  is modelled by writing the changed child back into its parent, which agrees with
  Python as long as no dictionary object occurs twice in the tree (the store is a tree).
\<close>

subsection \<open>Values and exceptions\<close>

datatype pyval =
    PNone
  | PBool bool
  | PInt int
  | PStr string
  | PList "pyval list"
  | PDict "(string \<times> pyval) list"

datatype py_error =
    KeyError
  | TypeError
  | ValueError
  | IndexError
  | AttributeError
  | FileNotFoundError
  | FileExistsError
  | IsADirectoryError
  | NotADirectoryError
  | JSONDecodeError

fun is_dict :: "pyval \<Rightarrow> bool" where
  "is_dict (PDict d) = True"
| "is_dict v = False"

subsection \<open>The primitive operations of Python the class uses\<close>

text \<open>\<^verbatim>\<open>key.split(".")\<close>: the segments between the dots; never the empty list.\<close>

fun split_dot :: "string \<Rightarrow> string list" where
  "split_dot [] = [[]]"
| "split_dot (c # cs) =
     (if c = CHR ''.'' then [] # split_dot cs
      else (case split_dot cs of [] \<Rightarrow> [[c]] | w # ws \<Rightarrow> (c # w) # ws))"

text \<open>\<^verbatim>\<open>value[k]\<close> with a string \<open>k\<close>: only a dictionary can be indexed by a string.\<close>

fun getitem :: "pyval \<Rightarrow> string \<Rightarrow> py_error + pyval" where
  "getitem (PDict d) k = (case map_of d k of None \<Rightarrow> Inl KeyError | Some v \<Rightarrow> Inr v)"
| "getitem v k = Inl TypeError"

text \<open>
  \<^verbatim>\<open>config[k] = v\<close> with a string \<open>k\<close>; the result is the outcome together with the
  object after the statement.
\<close>

fun setitem :: "pyval \<Rightarrow> string \<Rightarrow> pyval \<Rightarrow> (py_error + unit) \<times> pyval" where
  "setitem (PDict d) k v = (Inr (), PDict (AList.update k v d))"
| "setitem c k v = (Inl TypeError, c)"

text \<open>\<^verbatim>\<open>del config[k]\<close> with a string \<open>k\<close>.\<close>

fun delitem :: "pyval \<Rightarrow> string \<Rightarrow> (py_error + unit) \<times> pyval" where
  "delitem (PDict d) k =
     (case map_of d k of
        None \<Rightarrow> (Inl KeyError, PDict d)
      | Some v \<Rightarrow> (Inr (), PDict (AList.delete k d)))"
| "delitem c k = (Inl TypeError, c)"

text \<open>Whether \<open>needle\<close> occurs in \<open>hay\<close> as a contiguous run (\<^verbatim>\<open>in\<close> on strings).\<close>

fun starts_with :: "string \<Rightarrow> string \<Rightarrow> bool" where
  "starts_with [] hay = True"
| "starts_with (n # ns) [] = False"
| "starts_with (n # ns) (h # hs) = (n = h \<and> starts_with ns hs)"

fun substring :: "string \<Rightarrow> string \<Rightarrow> bool" where
  "substring needle [] = (needle = [])"
| "substring needle (h # hs) = (starts_with needle (h # hs) \<or> substring needle hs)"

text \<open>
  \<^verbatim>\<open>k in config\<close> with a string \<open>k\<close>: key membership for a dictionary, element
  membership for a list, the substring test for a string, and a \<^verbatim>\<open>TypeError\<close> for a
  value that is not iterable.
\<close>

fun contains :: "pyval \<Rightarrow> string \<Rightarrow> py_error + bool" where
  "contains (PDict d) k = Inr (map_of d k \<noteq> None)"
| "contains (PList xs) k = Inr (PStr k \<in> set xs)"
| "contains (PStr s) k = Inr (substring k s)"
| "contains v k = Inl TypeError"

subsection \<open>The object\<close>

text \<open>
  The attributes \<^verbatim>\<open>config_file\<close> and \<^verbatim>\<open>_config\<close>. The second is declared
  \<^verbatim>\<open>Dict[str, Any]\<close>, but \<^verbatim>\<open>load\<close> stores whatever the parser returns, so the
  field holds any value.
\<close>

record Config =
  config_file :: "string option"
  config_tree :: pyval

text \<open>
  Every method takes the object and returns its outcome (\<open>Inl\<close> an exception that
  leaves the method) together with the object after the call.
\<close>

type_synonym 'a outcome = "(py_error + 'a) \<times> Config"

subsection \<open>get and has\<close>

text \<open>The loop \<^verbatim>\<open>for k in keys: value = value[k]\<close>.\<close>

fun get_walk :: "pyval \<Rightarrow> string list \<Rightarrow> py_error + pyval" where
  "get_walk value [] = Inr value"
| "get_walk value (k # keys) =
     (case getitem value k of Inl e \<Rightarrow> Inl e | Inr value' \<Rightarrow> get_walk value' keys)"

definition get :: "Config \<Rightarrow> string \<Rightarrow> pyval \<Rightarrow> pyval outcome" where
  "get self key dflt =
     (let keys = split_dot key;
          value = config_tree self
      in case get_walk value keys of
           Inr value' \<Rightarrow> (Inr value', self)
         | Inl KeyError \<Rightarrow> (Inr dflt, self)
         | Inl TypeError \<Rightarrow> (Inr dflt, self)
         | Inl e \<Rightarrow> (Inl e, self))"

text \<open>\<^verbatim>\<open>return self.get(key) is not None\<close>: the default of \<^verbatim>\<open>get\<close> is \<^verbatim>\<open>None\<close>.\<close>

definition has :: "Config \<Rightarrow> string \<Rightarrow> bool outcome" where
  "has self key =
     (case get self key PNone of
        (Inl e, self') \<Rightarrow> (Inl e, self')
      | (Inr value, self') \<Rightarrow> (Inr (value \<noteq> PNone), self'))"

subsection \<open>set\<close>

text \<open>
  The dictionary \<open>config\<close> after the child it holds under \<open>k\<close> has been mutated in
  place into \<open>child\<close>.
\<close>

fun write_back :: "pyval \<Rightarrow> string \<Rightarrow> pyval \<Rightarrow> pyval" where
  "write_back (PDict d) k child = PDict (AList.update k child d)"
| "write_back c k child = c"

text \<open>
  The loop over \<^verbatim>\<open>keys[:-1]\<close> that creates missing intermediate dictionaries, and the
  final assignment to \<^verbatim>\<open>config[keys[-1]]\<close>. The result carries the node after the
  call, also when an exception leaves the loop half way. (\<^verbatim>\<open>keys[-1]\<close> of an empty
  list is an \<^verbatim>\<open>IndexError\<close>; \<^verbatim>\<open>split\<close> never returns one.)
\<close>

fun set_walk :: "pyval \<Rightarrow> string list \<Rightarrow> pyval \<Rightarrow> (py_error + unit) \<times> pyval" where
  "set_walk config [] v = (Inl IndexError, config)"
| "set_walk config [k] v = setitem config k v"
| "set_walk config (k # keys) v =
     (case contains config k of
        Inl e \<Rightarrow> (Inl e, config)
      | Inr present \<Rightarrow>
          (case (if present then (Inr (), config) else setitem config k (PDict [])) of
             (Inl e, config1) \<Rightarrow> (Inl e, config1)
           | (Inr u, config1) \<Rightarrow>
               (case getitem config1 k of
                  Inl e \<Rightarrow> (Inl e, config1)
                | Inr child \<Rightarrow>
                    (case set_walk child keys v of
                       (r, child') \<Rightarrow> (r, write_back config1 k child')))))"

definition set_value :: "Config \<Rightarrow> string \<Rightarrow> pyval \<Rightarrow> unit outcome" where
  "set_value self key v =
     (case set_walk (config_tree self) (split_dot key) v of
        (r, tree) \<Rightarrow> (r, self\<lparr>config_tree := tree\<rparr>))"

subsection \<open>delete\<close>

fun delete_walk :: "pyval \<Rightarrow> string list \<Rightarrow> (py_error + unit) \<times> pyval" where
  "delete_walk config [] = (Inl IndexError, config)"
| "delete_walk config [k] = delitem config k"
| "delete_walk config (k # keys) =
     (case getitem config k of
        Inl e \<Rightarrow> (Inl e, config)
      | Inr child \<Rightarrow>
          (case delete_walk child keys of
             (r, child') \<Rightarrow> (r, write_back config k child')))"

definition delete :: "Config \<Rightarrow> string \<Rightarrow> bool outcome" where
  "delete self key =
     (case delete_walk (config_tree self) (split_dot key) of
        (Inr u, tree) \<Rightarrow> (Inr True, self\<lparr>config_tree := tree\<rparr>)
      | (Inl KeyError, tree) \<Rightarrow> (Inr False, self\<lparr>config_tree := tree\<rparr>)
      | (Inl TypeError, tree) \<Rightarrow> (Inr False, self\<lparr>config_tree := tree\<rparr>)
      | (Inl e, tree) \<Rightarrow> (Inl e, self\<lparr>config_tree := tree\<rparr>))"

subsection \<open>merge\<close>

text \<open>
  \<^verbatim>\<open>_merge_dicts(target, source)\<close>: the loop over \<^verbatim>\<open>source.items()\<close>. The source is a
  dictionary (its entries in order); the target is the node being merged into.
\<close>

function merge_dicts :: "pyval \<Rightarrow> (string \<times> pyval) list \<Rightarrow> (py_error + unit) \<times> pyval" where
  "merge_dicts target [] = (Inr (), target)"
| "merge_dicts target ((key, v) # source) =
     (case
        (case contains target key of
           Inl e \<Rightarrow> (Inl e, target)
         | Inr False \<Rightarrow> setitem target key v
         | Inr True \<Rightarrow>
             (case getitem target key of
                Inl e \<Rightarrow> (Inl e, target)
              | Inr tv \<Rightarrow>
                  (case (tv, v) of
                     (PDict t, PDict s) \<Rightarrow>
                       (case merge_dicts tv s of (r, tv') \<Rightarrow> (r, write_back target key tv'))
                   | _ \<Rightarrow> setitem target key v)))
      of
        (Inl e, target') \<Rightarrow> (Inl e, target')
      | (Inr u, target') \<Rightarrow> merge_dicts target' source)"
  by pat_completeness auto
termination
  by (relation "measure (\<lambda>(target, source). size_list (size_prod (\<lambda>k. 0) size) source)") auto

definition merge :: "Config \<Rightarrow> (string \<times> pyval) list \<Rightarrow> unit outcome" where
  "merge self config_dict =
     (case merge_dicts (config_tree self) config_dict of
        (r, tree) \<Rightarrow> (r, self\<lparr>config_tree := tree\<rparr>))"

subsection \<open>list\_sections\<close>

text \<open>\<^verbatim>\<open>list(self._config.keys())\<close>: only a dictionary has \<^verbatim>\<open>keys\<close>.\<close>

definition list_sections :: "Config \<Rightarrow> string list outcome" where
  "list_sections self =
     (case config_tree self of
        PDict d \<Rightarrow> (Inr (map fst d), self)
      | v \<Rightarrow> (Inl AttributeError, self))"

subsection \<open>validate\<close>

text \<open>
  The type objects a schema names, and \<^verbatim>\<open>isinstance\<close> on them: \<^verbatim>\<open>bool\<close> is a
  subclass of \<^verbatim>\<open>int\<close>, and no value of the model is a \<^verbatim>\<open>float\<close>.
\<close>

datatype pytype = TStr | TInt | TFloat | TBool | TDict | TList

fun isinstance :: "pyval \<Rightarrow> pytype \<Rightarrow> bool" where
  "isinstance (PStr s) TStr = True"
| "isinstance (PInt i) TInt = True"
| "isinstance (PBool b) TInt = True"
| "isinstance (PBool b) TBool = True"
| "isinstance (PDict d) TDict = True"
| "isinstance (PList xs) TList = True"
| "isinstance v t = False"

text \<open>
  The descriptor of one key: the entries \<^verbatim>\<open>"type"\<close> and \<^verbatim>\<open>"schema"\<close> may be
  absent; \<^verbatim>\<open>"required"\<close> is read with the default \<^verbatim>\<open>False\<close>.
\<close>

datatype schema_value =
  SchemaValue (sv_type: "pytype option") (sv_required: bool)
    (sv_schema: "(string \<times> schema_value) list option")

function validate_schema :: "pyval \<Rightarrow> (string \<times> schema_value) list \<Rightarrow> py_error + unit" where
  "validate_schema config [] = Inr ()"
| "validate_schema config ((key, sv) # schema) =
     (case contains config key of
        Inl e \<Rightarrow> Inl e
      | Inr False \<Rightarrow>
          (if sv_required sv then Inl ValueError else validate_schema config schema)
      | Inr True \<Rightarrow>
          (case getitem config key of
             Inl e \<Rightarrow> Inl e
           | Inr config_value \<Rightarrow>
               (if (case sv_type sv of
                      None \<Rightarrow> False
                    | Some expected_type \<Rightarrow> \<not> isinstance config_value expected_type)
                then Inl ValueError
                else
                  (case (if sv_schema sv \<noteq> None \<and> is_dict config_value
                         then validate_schema config_value (the (sv_schema sv))
                         else Inr ()) of
                     Inl e \<Rightarrow> Inl e
                   | Inr u \<Rightarrow> validate_schema config schema))))"
  by pat_completeness auto
termination
  apply (relation "measure (\<lambda>(config, schema). size_list (size_prod (\<lambda>k. 0) size) schema)")
    apply simp_all
  subgoal for config key sv
    by (cases sv) auto
  done

definition validate :: "Config \<Rightarrow> (string \<times> schema_value) list \<Rightarrow> bool outcome" where
  "validate self schema =
     (case validate_schema (config_tree self) schema of
        Inr u \<Rightarrow> (Inr True, self)
      | Inl ValueError \<Rightarrow> (Inr False, self)
      | Inl e \<Rightarrow> (Inl e, self))"

subsection \<open>load and save\<close>

text \<open>
  The file system the methods see: a path names a regular file with its text, a
  directory, or nothing. The parser and the printer of the \<^verbatim>\<open>json\<close> module are
  parameters: \<open>loads\<close> returns \<open>None\<close> where \<^verbatim>\<open>json.load\<close> raises
  \<^verbatim>\<open>JSONDecodeError\<close>.
\<close>

datatype fs_node = RegularFile string | Directory

type_synonym filesystem = "string \<Rightarrow> fs_node option"

definition os_path_exists :: "filesystem \<Rightarrow> string \<Rightarrow> bool" where
  "os_path_exists fs p = (fs p \<noteq> None)"

text \<open>\<^verbatim>\<open>open(p, "r")\<close> and reading the whole file.\<close>

definition read_text :: "filesystem \<Rightarrow> string \<Rightarrow> py_error + string" where
  "read_text fs p =
     (case fs p of
        None \<Rightarrow> Inl FileNotFoundError
      | Some Directory \<Rightarrow> Inl IsADirectoryError
      | Some (RegularFile text) \<Rightarrow> Inr text)"

text \<open>
  \<^verbatim>\<open>os.path.dirname\<close>: the path up to its last slash, without trailing slashes
  unless it consists of slashes only; empty when the path has no slash.
\<close>

definition os_path_dirname :: "string \<Rightarrow> string" where
  "os_path_dirname p =
     (let head = rev (dropWhile (\<lambda>c. c \<noteq> CHR ''/'') (rev p))
      in if head \<noteq> [] \<and> \<not> list_all (\<lambda>c. c = CHR ''/'') head
         then rev (dropWhile (\<lambda>c. c = CHR ''/'') (rev head))
         else head)"

text \<open>
  The directories above a path, nearest first: its \<^verbatim>\<open>dirname\<close>, the \<^verbatim>\<open>dirname\<close> of
  that, and so on, up to but not including the root (a path of slashes only) or the
  current directory (the empty \<^verbatim>\<open>dirname\<close> of a relative name), which always exist.
\<close>

function ancestors :: "string \<Rightarrow> string list" where
  "ancestors p =
     (let d = os_path_dirname p
      in if d = [] \<or> list_all (\<lambda>c. c = CHR ''/'') d then [] else d # ancestors d)"
  by pat_completeness auto
termination
proof (relation "measure length", goal_cases)
  case 1
  show ?case by simp
next
  case (2 p d)
  let ?h = "rev (dropWhile (\<lambda>c. c \<noteq> CHR ''/'') (rev p))"
  have h_le: "length ?h \<le> length p"
    using length_dropWhile_le [of "\<lambda>c. c \<noteq> CHR ''/''" "rev p"] by simp
  from 2 have strip: "?h \<noteq> [] \<and> \<not> list_all (\<lambda>c. c = CHR ''/'') ?h"
    and d: "d = rev (dropWhile (\<lambda>c. c = CHR ''/'') (rev ?h))"
    by (auto simp: os_path_dirname_def Let_def split: if_splits)
  from strip obtain ys where ys: "dropWhile (\<lambda>c. c \<noteq> CHR ''/'') (rev p) = CHR ''/'' # ys"
    using hd_dropWhile [of "\<lambda>c. c \<noteq> CHR ''/''" "rev p"]
    by (cases "dropWhile (\<lambda>c. c \<noteq> CHR ''/'') (rev p)") auto
  have "length d \<le> length ys"
    using d ys length_dropWhile_le [of "\<lambda>c. c = CHR ''/''" ys] by simp
  with ys h_le have "length d < length p" by simp
  then show ?case by simp
qed

declare ancestors.simps [simp del]

text \<open>
  \<^verbatim>\<open>os.makedirs(name, exist_ok=True)\<close>. The empty name is refused by the operating
  system (\<^verbatim>\<open>FileNotFoundError\<close>) and the root is there already. Otherwise a regular
  file above the name is a \<^verbatim>\<open>NotADirectoryError\<close>, a regular file at the name is a
  \<^verbatim>\<open>FileExistsError\<close>, and else the name and every missing directory above it are
  created; an existing directory is accepted. Paths are compared as they are written.
\<close>

definition os_makedirs :: "filesystem \<Rightarrow> string \<Rightarrow> py_error + filesystem" where
  "os_makedirs fs name =
     (if name = [] then Inl FileNotFoundError
      else if list_all (\<lambda>c. c = CHR ''/'') name then Inr fs
      else if list_ex (\<lambda>a. case fs a of Some (RegularFile text) \<Rightarrow> True | _ \<Rightarrow> False)
                (ancestors name)
      then Inl NotADirectoryError
      else case fs name of
             Some (RegularFile text) \<Rightarrow> Inl FileExistsError
           | _ \<Rightarrow>
               Inr (\<lambda>p. if (p = name \<or> p \<in> set (ancestors name)) \<and> fs p = None
                        then Some Directory else fs p))"

text \<open>
  \<^verbatim>\<open>open(p, "w")\<close> and writing the whole text. The empty path does not exist; a path
  that ends in a slash or names a directory is an \<^verbatim>\<open>IsADirectoryError\<close>; the directory
  the file goes into must be there (the root and the current directory always are).
\<close>

definition write_text :: "filesystem \<Rightarrow> string \<Rightarrow> string \<Rightarrow> py_error + filesystem" where
  "write_text fs p text =
     (if p = [] then Inl FileNotFoundError
      else if last p = CHR ''/'' then Inl IsADirectoryError
      else case fs p of
             Some Directory \<Rightarrow> Inl IsADirectoryError
           | _ \<Rightarrow>
               (let parent = os_path_dirname p
                in if parent = [] \<or> list_all (\<lambda>c. c = CHR ''/'') parent
                   then Inr (fs(p \<mapsto> RegularFile text))
                   else case fs parent of
                          None \<Rightarrow> Inl FileNotFoundError
                        | Some (RegularFile t) \<Rightarrow> Inl NotADirectoryError
                        | Some Directory \<Rightarrow> Inr (fs(p \<mapsto> RegularFile text))))"

text \<open>Truth value of an \<^verbatim>\<open>Optional[str]\<close>, and \<^verbatim>\<open>a or b\<close> on two of them.\<close>

definition truthy :: "string option \<Rightarrow> bool" where
  "truthy p = (case p of None \<Rightarrow> False | Some s \<Rightarrow> s \<noteq> [])"

definition py_or :: "string option \<Rightarrow> string option \<Rightarrow> string option" where
  "py_or a b = (if truthy a then a else b)"

definition load :: "(string \<Rightarrow> pyval option) \<Rightarrow> filesystem \<Rightarrow> Config \<Rightarrow> string option \<Rightarrow> unit outcome" where
  "load loads fs self path =
     (let file_path = py_or path (config_file self)
      in if \<not> truthy file_path then (Inl ValueError, self)
         else if \<not> os_path_exists fs (the file_path) then (Inl FileNotFoundError, self)
         else (case read_text fs (the file_path) of
                 Inl e \<Rightarrow> (Inl e, self)
               | Inr text \<Rightarrow>
                   (case loads text of
                      None \<Rightarrow> (Inl JSONDecodeError, self)
                    | Some parsed \<Rightarrow> (Inr (), self\<lparr>config_tree := parsed\<rparr>))))"

definition save :: "(pyval \<Rightarrow> string) \<Rightarrow> filesystem \<Rightarrow> Config \<Rightarrow> string option \<Rightarrow> unit outcome \<times> filesystem" where
  "save dumps fs self path =
     (let file_path = py_or path (config_file self)
      in if \<not> truthy file_path then ((Inl ValueError, self), fs)
         else (case os_makedirs fs (os_path_dirname (the file_path)) of
                 Inl e \<Rightarrow> ((Inl e, self), fs)
               | Inr fs1 \<Rightarrow>
                   (case write_text fs1 (the file_path) (dumps (config_tree self)) of
                      Inl e \<Rightarrow> ((Inl e, self), fs1)
                    | Inr fs2 \<Rightarrow> ((Inr (), self), fs2))))"

text \<open>The constructor: an empty tree, loaded at once when the file is there.\<close>

definition init :: "(string \<Rightarrow> pyval option) \<Rightarrow> filesystem \<Rightarrow> string option \<Rightarrow> unit outcome" where
  "init loads fs path =
     (let self = \<lparr>config_file = path, config_tree = PDict []\<rparr>
      in if truthy path \<and> os_path_exists fs (the path) then load loads fs self None
         else (Inr (), self))"

section \<open>The notions the specification uses\<close>

text \<open>
  A key path resolves to the value reached by descending through mappings only: it does
  not resolve when a segment is absent or when a value on the way is not a mapping.
\<close>

fun lookup_path :: "pyval \<Rightarrow> string list \<Rightarrow> pyval option" where
  "lookup_path v [] = Some v"
| "lookup_path (PDict d) (k # ks) =
     (case map_of d k of None \<Rightarrow> None | Some child \<Rightarrow> lookup_path child ks)"
| "lookup_path v (k # ks) = None"

text \<open>
  A key is valid for \<^verbatim>\<open>set\<close> when the tree is a mapping and each intermediate segment
  of its path is either absent or holds a mapping for which the rest of the path is valid.
\<close>

fun valid_key :: "pyval \<Rightarrow> string list \<Rightarrow> bool" where
  "valid_key (PDict d) [k] = True"
| "valid_key (PDict d) (k # ks) =
     (case map_of d k of None \<Rightarrow> True | Some child \<Rightarrow> valid_key child ks)"
| "valid_key v ks = False"

text \<open>
  The value \<^verbatim>\<open>merge\<close> leaves under a key of the incoming tree: the recursive merge when
  the existing and the incoming value are both mappings, the incoming value otherwise.
\<close>

definition merged_value :: "pyval option \<Rightarrow> pyval \<Rightarrow> pyval" where
  "merged_value existing incoming =
     (case (existing, incoming) of
        (Some (PDict t), PDict s) \<Rightarrow> snd (merge_dicts (PDict t) s)
      | _ \<Rightarrow> incoming)"

text \<open>
  A tree conforms to a schema when every key of the schema is either absent and not
  required, or present with a value of the declared type (if one is declared) that, when
  it is a mapping and a nested schema is given, conforms to the nested schema.
\<close>

function conforms :: "pyval \<Rightarrow> (string \<times> schema_value) list \<Rightarrow> bool" where
  "conforms config schema =
     list_all (\<lambda>(key, sv).
        case lookup_path config [key] of
          None \<Rightarrow> \<not> sv_required sv
        | Some config_value \<Rightarrow>
            (case sv_type sv of None \<Rightarrow> True | Some t \<Rightarrow> isinstance config_value t) \<and>
            (case sv_schema sv of
               None \<Rightarrow> True
             | Some nested \<Rightarrow> is_dict config_value \<longrightarrow> conforms config_value nested))
       schema"
  by pat_completeness auto
termination
proof (relation "measure (\<lambda>(config, schema). size_list (size_prod (\<lambda>k. 0) size) schema)",
    goal_cases)
  case 1
  show ?case by simp
next
  case (2 config schema x key sv config_value nested)
  have "(key, sv) \<in> set xs \<Longrightarrow>
      size_list (size_prod (\<lambda>k. 0) size) nested < size_list (size_prod (\<lambda>k. 0) size) xs"
    for xs :: "(string \<times> schema_value) list"
  proof (induction xs)
    case Nil
    then show ?case by simp
  next
    case (Cons y ys)
    from \<open>sv_schema sv = Some nested\<close> have "size_list (size_prod (\<lambda>k. 0) size) nested < size sv"
      by (cases sv) auto
    with Cons show ?case by auto
  qed
  with 2 show ?case by auto
qed

declare conforms.simps [simp del]

section \<open>Auxiliary facts\<close>

subsection \<open>Key paths and lookups\<close>

lemma split_dot_nonempty: "split_dot s \<noteq> []"
  by (induction s) (auto split: list.splits)

lemma get_walk_cases:
  "(\<exists>v. lookup_path t ks = Some v \<and> get_walk t ks = Inr v) \<or>
   (lookup_path t ks = None \<and> (get_walk t ks = Inl KeyError \<or> get_walk t ks = Inl TypeError))"
  by (induction t ks rule: lookup_path.induct) (auto split: option.splits)

lemma get_eq: "get self key d =
     (Inr (case lookup_path (config_tree self) (split_dot key) of Some v \<Rightarrow> v | None \<Rightarrow> d), self)"
  using get_walk_cases [of "config_tree self" "split_dot key"]
  by (auto simp: get_def)

lemma lookup_path_empty: "lookup_path (PDict []) (split_dot key) = None"
  using split_dot_nonempty [of key] by (cases "split_dot key") auto


lemma valid_key_empty: "ks \<noteq> [] \<Longrightarrow> valid_key (PDict []) ks"
  by (cases ks; cases "tl ks") auto

subsection \<open>The walks of set and delete\<close>

lemma set_walk_get_walk:
  "valid_key t ks \<Longrightarrow> \<exists>t'. set_walk t ks v = (Inr (), t') \<and> get_walk t' ks = Inr v"
proof (induction t ks v rule: set_walk.induct)
  case (1 config v)
  then show ?case by simp
next
  case (2 config k v)
  then show ?case by (cases config) (auto simp: AList.update_conv')
next
  case (3 config k k' keys v)
  from "3.prems" obtain d where d: "config = PDict d" by (cases config) auto
  show ?case
  proof (cases "map_of d k")
    case None
    have "valid_key (PDict []) (k' # keys)" by (rule valid_key_empty) simp
    with "3.IH" [of False "Inr ()" "PDict (AList.update k (PDict []) d)" "()" "PDict []"] d None
    obtain child' where
      "set_walk (PDict []) (k' # keys) v = (Inr (), child')" "get_walk child' (k' # keys) = Inr v"
      by (auto simp: AList.update_conv')
    with None d show ?thesis by (simp add: AList.update_conv')
  next
    case (Some child)
    with "3.prems" d have "valid_key child (k' # keys)" by simp
    with "3.IH" [of True "Inr ()" config "()" child] d Some
    obtain child' where
      "set_walk child (k' # keys) v = (Inr (), child')" "get_walk child' (k' # keys) = Inr v"
      by auto
    with Some d show ?thesis by (simp add: AList.update_conv')
  qed
qed



subsection \<open>The loop of merge\<close>

lemma merge_dicts_dict:
  "is_dict target \<Longrightarrow> fst (merge_dicts target source) = Inr () \<and> is_dict (snd (merge_dicts target source))"
proof (induction target source rule: merge_dicts.induct)
  case (1 target)
  then show ?case by simp
next
  case (2 target key v source)
  from "2.prems" obtain d where d: "target = PDict d" by (cases target) auto
  show ?case
  proof (cases "map_of d key")
    case None
    with d "2.IH"(2) [of "Inr ()" "PDict (AList.update key v d)" "()"]
    show ?thesis by simp
  next
    case (Some tv)
    show ?thesis
    proof (cases "is_dict tv \<and> is_dict v")
      case True
      then obtain t s where ts: "tv = PDict t" "v = PDict s"
        by (cases tv; cases v) auto
      from "2.IH"(1) [of True tv tv v t s] d Some ts
      have n: "fst (merge_dicts tv s) = Inr ()" by simp
      then obtain tv' where tv': "merge_dicts tv s = (Inr (), tv')"
        by (cases "merge_dicts tv s") auto
      with d Some ts "2.IH"(2) [of "Inr ()" "PDict (AList.update key tv' d)" "()"]
      show ?thesis by simp
    next
      case False
      with d Some "2.IH"(2) [of "Inr ()" "PDict (AList.update key v d)" "()"]
      show ?thesis by (cases tv; cases v) auto
    qed
  qed
qed

lemma merge_dicts_Cons:
  "merge_dicts (PDict d) ((key, v) # source) =
   merge_dicts (PDict (AList.update key (merged_value (map_of d key) v) d)) source"
proof (cases "map_of d key")
  case None
  then show ?thesis by (simp add: merged_value_def)
next
  case (Some tv)
  show ?thesis
  proof (cases "is_dict tv \<and> is_dict v")
    case True
    then obtain t s where ts: "tv = PDict t" "v = PDict s"
      by (cases tv; cases v) auto
    from merge_dicts_dict [of tv s] ts obtain tv' where "merge_dicts tv s = (Inr (), tv')"
      by (cases "merge_dicts tv s") auto
    with Some ts show ?thesis by (simp add: merged_value_def)
  next
    case False
    with Some show ?thesis by (cases tv; cases v) (auto simp: merged_value_def)
  qed
qed

lemma merge_dicts_other:
  "k \<notin> fst ` set source \<Longrightarrow>
   lookup_path (snd (merge_dicts (PDict d) source)) [k] = lookup_path (PDict d) [k]"
proof (induction source arbitrary: d)
  case Nil
  then show ?case by simp
next
  case (Cons a source)
  obtain key v where a: "a = (key, v)" by (cases a)
  with Cons.prems have "k \<noteq> key" "k \<notin> fst ` set source" by auto
  with Cons.IH [of "AList.update key (merged_value (map_of d key) v) d"] a
  show ?case by (simp only: merge_dicts_Cons) (simp add: AList.update_conv')
qed

lemma merge_dicts_key:
  "distinct (map fst source) \<Longrightarrow> (k, v) \<in> set source \<Longrightarrow>
   lookup_path (snd (merge_dicts (PDict d) source)) [k] = Some (merged_value (map_of d k) v)"
proof (induction source arbitrary: d)
  case Nil
  then show ?case by simp
next
  case (Cons a source)
  obtain key w where a: "a = (key, w)" by (cases a)
  let ?d' = "AList.update key (merged_value (map_of d key) w) d"
  show ?case
  proof (cases "(k, v) = a")
    case True
    with a Cons.prems have "k \<notin> fst ` set source" by auto
    from merge_dicts_other [OF this, of ?d'] a True
    show ?thesis by (simp only: merge_dicts_Cons) (simp add: AList.update_conv')
  next
    case False
    with Cons.prems a have in_rest: "(k, v) \<in> set source" and dist: "distinct (map fst source)"
      by auto
    with Cons.prems a have "k \<noteq> key" by force
    with Cons.IH [OF dist in_rest, of ?d'] a
    show ?thesis by (simp only: merge_dicts_Cons) (simp add: AList.update_conv')
  qed
qed

subsection \<open>Validation against a schema\<close>

lemma conforms_Nil: "conforms config [] = True"
  by (simp add: conforms.simps [of config "[]"])

lemma conforms_Cons:
  "conforms config ((key, sv) # schema) =
     ((case lookup_path config [key] of
          None \<Rightarrow> \<not> sv_required sv
        | Some config_value \<Rightarrow>
            (case sv_type sv of None \<Rightarrow> True | Some t \<Rightarrow> isinstance config_value t) \<and>
            (case sv_schema sv of
               None \<Rightarrow> True
             | Some nested \<Rightarrow> is_dict config_value \<longrightarrow> conforms config_value nested))
      \<and> conforms config schema)"
  by (simp add: conforms.simps [of config "(key, sv) # schema"] conforms.simps [of config schema])

lemma validate_schema_conforms:
  "is_dict config \<Longrightarrow>
   validate_schema config schema = (if conforms config schema then Inr () else Inl ValueError)"
proof (induction config schema rule: validate_schema.induct)
  case (1 config)
  then show ?case by (simp add: conforms_Nil)
next
  case (2 config key sv schema)
  from "2.prems" obtain d where d: "config = PDict d" by (cases config) auto
  show ?case
  proof (cases "map_of d key")
    case None
    with d "2.IH"(3) [of False] "2.prems" show ?thesis
      by (simp add: conforms_Cons)
  next
    case (Some cv)
    show ?thesis
    proof (cases "case sv_type sv of None \<Rightarrow> False | Some t \<Rightarrow> \<not> isinstance cv t")
      case True
      with d Some show ?thesis
        by (auto simp: conforms_Cons split: option.splits)
    next
      case tyok: False
      show ?thesis
      proof (cases "sv_schema sv \<noteq> None \<and> is_dict cv")
        case True
        then obtain nested where n: "sv_schema sv = Some nested" by auto
        from "2.IH"(1) [of True cv] d Some tyok True n
        have nv: "validate_schema cv nested = (if conforms cv nested then Inr () else Inl ValueError)"
          by simp
        show ?thesis
        proof (cases "conforms cv nested")
          case True
          with nv have "validate_schema cv nested = Inr ()" by simp
          with "2.IH"(2) [of True cv "()"] d Some tyok n \<open>sv_schema sv \<noteq> None \<and> is_dict cv\<close>
          have "validate_schema config schema = (if conforms config schema then Inr () else Inl ValueError)"
            by simp
          with d Some tyok n True nv \<open>sv_schema sv \<noteq> None \<and> is_dict cv\<close> show ?thesis
            by (auto simp: conforms_Cons split: option.splits)
        next
          case False
          with d Some tyok n nv \<open>sv_schema sv \<noteq> None \<and> is_dict cv\<close> show ?thesis
            by (auto simp: conforms_Cons split: option.splits)
        qed
      next
        case False
        then have "(if sv_schema sv \<noteq> None \<and> is_dict cv
              then validate_schema cv (the (sv_schema sv)) else Inr ()) = Inr ()"
          by auto
        with "2.IH"(2) [of True cv "()"] d Some tyok
        have "validate_schema config schema = (if conforms config schema then Inr () else Inl ValueError)"
          by simp
        with d Some tyok False show ?thesis
          by (auto simp: conforms_Cons split: option.splits)
      qed
    qed
  qed
qed

lemma conforms_entry:
  "conforms config schema \<Longrightarrow> (key, sv) \<in> set schema \<Longrightarrow>
   (case lookup_path config [key] of
      None \<Rightarrow> \<not> sv_required sv
    | Some config_value \<Rightarrow>
        (case sv_type sv of None \<Rightarrow> True | Some t \<Rightarrow> isinstance config_value t))"
  by (induction schema) (auto simp: conforms_Cons split: option.splits)

subsection \<open>Saving and loading\<close>

lemma dirname_shorter:
  assumes "os_path_dirname p \<noteq> []" "\<not> list_all (\<lambda>c. c = CHR ''/'') (os_path_dirname p)"
  shows "length (os_path_dirname p) < length p"
proof -
  let ?h = "rev (dropWhile (\<lambda>c. c \<noteq> CHR ''/'') (rev p))"
  have h_le: "length ?h \<le> length p"
    using length_dropWhile_le [of "\<lambda>c. c \<noteq> CHR ''/''" "rev p"] by simp
  from assms have strip: "?h \<noteq> [] \<and> \<not> list_all (\<lambda>c. c = CHR ''/'') ?h"
    and d: "os_path_dirname p = rev (dropWhile (\<lambda>c. c = CHR ''/'') (rev ?h))"
    by (auto simp: os_path_dirname_def Let_def split: if_splits)
  from strip obtain ys where ys: "dropWhile (\<lambda>c. c \<noteq> CHR ''/'') (rev p) = CHR ''/'' # ys"
    using hd_dropWhile [of "\<lambda>c. c \<noteq> CHR ''/''" "rev p"]
    by (cases "dropWhile (\<lambda>c. c \<noteq> CHR ''/'') (rev p)") auto
  have "length (os_path_dirname p) \<le> length ys"
    using d ys length_dropWhile_le [of "\<lambda>c. c = CHR ''/''" ys] by simp
  with ys h_le show ?thesis by simp
qed

lemma dirname_of_file_shorter:
  assumes "p \<noteq> []" "last p \<noteq> CHR ''/''"
  shows "length (os_path_dirname p) < length p"
proof -
  let ?h = "rev (dropWhile (\<lambda>c. c \<noteq> CHR ''/'') (rev p))"
  from assms obtain c cs where r: "rev p = c # cs" "c \<noteq> CHR ''/''"
    by (cases "rev p") (auto simp: last_rev [symmetric] hd_rev)
  then have "length ?h \<le> length cs"
    using length_dropWhile_le [of "\<lambda>c. c \<noteq> CHR ''/''" cs] by simp
  moreover from r have "length cs < length p"
    by (metis length_Cons length_rev lessI)
  moreover have "length (rev (dropWhile (\<lambda>c. c = CHR ''/'') (rev ?h))) \<le> length ?h"
    using length_dropWhile_le [of "\<lambda>c. c = CHR ''/''" "rev ?h"] by simp
  ultimately show ?thesis by (simp add: os_path_dirname_def Let_def)
qed

lemma ancestors_shorter: "a \<in> set (ancestors q) \<Longrightarrow> length a < length q"
proof (induction q rule: ancestors.induct)
  case (1 p)
  let ?d = "os_path_dirname p"
  show ?case
  proof (cases "?d = [] \<or> list_all (\<lambda>c. c = CHR ''/'') ?d")
    case True
    with "1.prems" show ?thesis by (simp add: ancestors.simps [of p] Let_def)
  next
    case False
    then have lt: "length ?d < length p" by (simp add: dirname_shorter)
    from False "1.prems" have "a = ?d \<or> a \<in> set (ancestors ?d)"
      by (simp add: ancestors.simps [of p] Let_def)
    then show ?thesis
    proof
      assume "a = ?d"
      with lt show ?thesis by simp
    next
      assume "a \<in> set (ancestors ?d)"
      with "1.IH" [of ?d] False have "length a < length ?d" by simp
      with lt show ?thesis by simp
    qed
  qed
qed

text \<open>
  Where the path names a file, has a directory part, no regular file lies at or above
  that directory, the path itself is not a directory, and the parser reads back what the
  printer wrote, \<^verbatim>\<open>save\<close> followed by \<^verbatim>\<open>load\<close> on the same path returns to the same
  object.
\<close>

lemma save_then_load:
  assumes p: "py_or path (config_file self) = Some p" "p \<noteq> []" "last p \<noteq> CHR ''/''"
    and dir: "os_path_dirname p \<noteq> []"
      "\<forall>a \<in> set (os_path_dirname p # ancestors (os_path_dirname p)).
         \<forall>text. fs a \<noteq> Some (RegularFile text)"
    and node: "fs p \<noteq> Some Directory"
    and json: "loads (dumps (config_tree self)) = Some (config_tree self)"
  shows "\<exists>fs'. save dumps fs self path = ((Inr (), self), fs') \<and>
               load loads fs' self path = (Inr (), self)"
proof -
  let ?d = "os_path_dirname p"
  have short: "length ?d < length p" using p by (simp add: dirname_of_file_shorter)
  then have pd: "p \<noteq> ?d" by auto
  have pa: "p \<notin> set (ancestors ?d)"
    using ancestors_shorter [of p ?d] short by auto
  have "\<exists>fs1. os_makedirs fs ?d = Inr fs1 \<and> fs1 p = fs p \<and>
          (list_all (\<lambda>c. c = CHR ''/'') ?d \<or> fs1 ?d = Some Directory)"
  proof (cases "list_all (\<lambda>c. c = CHR ''/'') ?d")
    case True
    with dir show ?thesis by (simp add: os_makedirs_def)
  next
    case False
    from dir(2) have no_anc: "\<not> list_ex (\<lambda>a. case fs a of Some (RegularFile text) \<Rightarrow> True | _ \<Rightarrow> False)
                (ancestors ?d)"
      by (auto simp: list_ex_iff split: option.splits fs_node.splits)
    from dir(2) have "fs ?d = None \<or> fs ?d = Some Directory"
      by (cases "fs ?d"; cases "the (fs ?d)") auto
    with False dir(1) no_anc pd pa show ?thesis
      by (auto simp: os_makedirs_def)
  qed
  then obtain fs1 where mk: "os_makedirs fs ?d = Inr fs1"
    and same: "fs1 p = fs p"
    and there: "list_all (\<lambda>c. c = CHR ''/'') ?d \<or> fs1 ?d = Some Directory"
    by blast
  from node same there p dir(1) have wr:
    "write_text fs1 p (dumps (config_tree self)) =
       Inr (fs1(p \<mapsto> RegularFile (dumps (config_tree self))))"
    by (auto simp: write_text_def Let_def split: option.splits fs_node.splits)
  from p mk wr have "save dumps fs self path =
      ((Inr (), self), fs1(p \<mapsto> RegularFile (dumps (config_tree self))))"
    by (simp add: save_def truthy_def)
  moreover from p json have
    "load loads (fs1(p \<mapsto> RegularFile (dumps (config_tree self)))) self path = (Inr (), self)"
    by (simp add: load_def truthy_def os_path_exists_def read_text_def)
  ultimately show ?thesis by blast
qed

text \<open>
  \<^verbatim>\<open>load\<close> stores whatever the parser returns, a mapping or not.
\<close>

lemma load_stores_any_value:
  "p \<noteq> [] \<Longrightarrow> fs p = Some (RegularFile text) \<Longrightarrow> loads text = Some parsed \<Longrightarrow>
   load loads fs self (Some p) = (Inr (), self\<lparr>config_tree := parsed\<rparr>)"
  by (simp add: load_def py_or_def truthy_def os_path_exists_def read_text_def)

section \<open>The claims\<close>

subsection \<open>set and get\<close>

text \<open>
  Claim C1. For every valid dot-separated key and every value \<open>v\<close>, \<^verbatim>\<open>set(key, v)\<close>
  returns normally and a following \<^verbatim>\<open>get(key)\<close>, with any default, returns \<open>v\<close> and
  leaves the store as \<^verbatim>\<open>set\<close> left it. A key is valid when the tree is a mapping and each
  intermediate segment of its path is absent or holds a mapping (\<open>valid_key\<close>).
\<close>

theorem set_then_get:
  "valid_key (config_tree self) (split_dot key) \<Longrightarrow>
   fst (set_value self key v) = Inr () \<and>
   get (snd (set_value self key v)) key d = (Inr v, snd (set_value self key v))"
proof -
  assume "valid_key (config_tree self) (split_dot key)"
  from set_walk_get_walk [OF this, of v] obtain t' where
    "set_walk (config_tree self) (split_dot key) v = (Inr (), t')"
    "get_walk t' (split_dot key) = Inr v"
    by blast
  then show ?thesis by (simp add: set_value_def get_def)
qed

theorem set_then_get_witness:
  "valid_key (config_tree \<lparr>config_file = None, config_tree = PDict [(''app'', PDict [])]\<rparr>)
     (split_dot ''database.host'') \<and>
   get (snd (set_value \<lparr>config_file = None, config_tree = PDict [(''app'', PDict [])]\<rparr>
              ''database.host'' (PStr ''localhost'')))
       ''database.host'' PNone
   = (Inr (PStr ''localhost''),
      \<lparr>config_file = None,
       config_tree = PDict [(''app'', PDict []),
                            (''database'', PDict [(''host'', PStr ''localhost'')])]\<rparr>)"
proof -
  have h: "valid_key (config_tree \<lparr>config_file = None, config_tree = PDict [(''app'', PDict [])]\<rparr>)
     (split_dot ''database.host'')"
    by simp
  have s: "snd (set_value \<lparr>config_file = None, config_tree = PDict [(''app'', PDict [])]\<rparr>
              ''database.host'' (PStr ''localhost'')) =
      \<lparr>config_file = None,
       config_tree = PDict [(''app'', PDict []),
                            (''database'', PDict [(''host'', PStr ''localhost'')])]\<rparr>"
    by (simp add: set_value_def)
  from set_then_get [OF h, of "PStr ''localhost''" PNone] h s show ?thesis by simp
qed

subsection \<open>merge\<close>

text \<open>
  Claim C2. When the tree is a mapping, \<^verbatim>\<open>merge(source)\<close> returns normally; a key that
  the incoming tree does not have keeps its value, and no key of the store disappears;
  for every key of the incoming tree (a dictionary: its keys are distinct) the store
  afterwards holds \<open>merged_value\<close> of the existing and the incoming value, which is
  the recursive merge when both are mappings and the incoming value otherwise. Merging
  \<^verbatim>\<open>{db: {host: "x"}}\<close> into \<^verbatim>\<open>{db: {port: 5432}}\<close> leaves the mapping with both
  entries under \<^verbatim>\<open>db\<close> (the entry that was there first comes first), and after
  \<^verbatim>\<open>merge({a: 1}); merge({a: 2})\<close> the key \<^verbatim>\<open>a\<close> holds 2.
\<close>

theorem merge_recursive_right_biased:
  "(config_tree self = PDict d \<longrightarrow>
      fst (merge self source) = Inr () \<and>
      config_file (snd (merge self source)) = config_file self \<and>
      (\<forall>k. k \<notin> fst ` set source \<longrightarrow>
         lookup_path (config_tree (snd (merge self source))) [k] = map_of d k) \<and>
      (\<forall>k. map_of d k \<noteq> None \<longrightarrow>
         lookup_path (config_tree (snd (merge self source))) [k] \<noteq> None) \<and>
      (distinct (map fst source) \<longrightarrow>
         (\<forall>(k, v) \<in> set source.
            lookup_path (config_tree (snd (merge self source))) [k] =
              Some (merged_value (map_of d k) v)))) \<and>
   merged_value (Some (PDict t)) (PDict s) = snd (merge_dicts (PDict t) s) \<and>
   (\<not> (is_dict tv \<and> is_dict v) \<longrightarrow> merged_value (Some tv) v = v) \<and>
   merged_value None v = v \<and>
   snd (merge \<lparr>config_file = f, config_tree = PDict [(''db'', PDict [(''port'', PInt 5432)])]\<rparr>
          [(''db'', PDict [(''host'', PStr ''x'')])]) =
     \<lparr>config_file = f,
      config_tree = PDict [(''db'', PDict [(''port'', PInt 5432), (''host'', PStr ''x'')])]\<rparr> \<and>
   (config_tree self = PDict d \<longrightarrow>
      lookup_path (config_tree (snd (merge (snd (merge self [(''a'', PInt 1)]))
                                      [(''a'', PInt 2)]))) [''a''] = Some (PInt 2))"
proof -
  have general: "fst (merge self source) = Inr () \<and>
      config_file (snd (merge self source)) = config_file self \<and>
      (\<forall>k. k \<notin> fst ` set source \<longrightarrow>
         lookup_path (config_tree (snd (merge self source))) [k] = map_of d k) \<and>
      (\<forall>k. map_of d k \<noteq> None \<longrightarrow>
         lookup_path (config_tree (snd (merge self source))) [k] \<noteq> None) \<and>
      (distinct (map fst source) \<longrightarrow>
         (\<forall>(k, v) \<in> set source.
            lookup_path (config_tree (snd (merge self source))) [k] =
              Some (merged_value (map_of d k) v)))"
    if t: "config_tree self = PDict d"
  proof -
    let ?r = "merge_dicts (PDict d) source"
    have m: "merge self source = (fst ?r, self\<lparr>config_tree := snd ?r\<rparr>)"
      using t by (simp add: merge_def split: prod.splits)
    have ok: "fst ?r = Inr ()" using merge_dicts_dict [of "PDict d" source] by simp
    have other: "k \<notin> fst ` set source \<longrightarrow> lookup_path (snd ?r) [k] = map_of d k" for k
      using merge_dicts_other [of k source d] by (auto split: option.splits)
    have key: "distinct (map fst source) \<longrightarrow>
        (\<forall>(k, v) \<in> set source. lookup_path (snd ?r) [k] = Some (merged_value (map_of d k) v))"
      using merge_dicts_key [of source _ _ d] by auto
    have kept: "map_of d k \<noteq> None \<longrightarrow> lookup_path (snd ?r) [k] \<noteq> None" for k
    proof (induction source arbitrary: d)
      case Nil
      then show ?case by (auto split: option.splits)
    next
      case (Cons a source)
      obtain key v where a: "a = (key, v)" by (cases a)
      from Cons [of "AList.update key (merged_value (map_of d key) v) d"] a
      show ?case by (simp only: merge_dicts_Cons) (simp add: AList.update_conv')
    qed
    from m ok other key kept show ?thesis by simp
  qed
  have mv1: "merged_value (Some (PDict t)) (PDict s) = snd (merge_dicts (PDict t) s)"
    by (simp add: merged_value_def)
  have mv2: "\<not> (is_dict tv \<and> is_dict v) \<longrightarrow> merged_value (Some tv) v = v"
    by (cases tv; cases v) (simp_all add: merged_value_def)
  have mv3: "merged_value None v = v"
    by (simp add: merged_value_def)
  have ex1: "snd (merge \<lparr>config_file = f,
                           config_tree = PDict [(''db'', PDict [(''port'', PInt 5432)])]\<rparr>
          [(''db'', PDict [(''host'', PStr ''x'')])]) =
     \<lparr>config_file = f,
      config_tree = PDict [(''db'', PDict [(''port'', PInt 5432), (''host'', PStr ''x'')])]\<rparr>"
    by (simp add: merge_def)
  have ex2: "lookup_path (config_tree (snd (merge (snd (merge self [(''a'', PInt 1)]))
                                      [(''a'', PInt 2)]))) [''a''] = Some (PInt 2)"
    if t: "config_tree self = PDict d"
  proof -
    have "merge_dicts (PDict d') [(''a'', PInt i)] =
        (Inr (), PDict (AList.update ''a'' (PInt i) d'))" for d' i
      by (simp only: merge_dicts_Cons) (simp add: merged_value_def split: option.splits pyval.splits)
    with t show ?thesis by (simp add: merge_def AList.update_conv')
  qed
  from general mv1 mv2 mv3 ex1 ex2 show ?thesis by blast
qed

theorem merge_recursive_right_biased_witness:
  "config_tree \<lparr>config_file = None,
                 config_tree = PDict [(''db'', PDict [(''port'', PInt 5432)])]\<rparr>
     = PDict [(''db'', PDict [(''port'', PInt 5432)])] \<and>
   distinct (map fst [(''db'', PDict [(''host'', PStr ''x'')])]) \<and>
   ''port'' \<notin> fst ` set [(''db'', PDict [(''host'', PStr ''x'')])] \<and>
   is_dict (PDict [(''port'', PInt 5432)]) \<and> \<not> is_dict (PInt 2) \<and>
   lookup_path
     (config_tree (snd (merge \<lparr>config_file = None,
                                 config_tree = PDict [(''db'', PDict [(''port'', PInt 5432)])]\<rparr>
                              [(''db'', PDict [(''host'', PStr ''x'')])])))
     [''db'']
   = Some (PDict [(''port'', PInt 5432), (''host'', PStr ''x'')])"
proof -
  have mv: "merged_value (map_of [(''db'', PDict [(''port'', PInt 5432)])] ''db'')
              (PDict [(''host'', PStr ''x'')])
            = PDict [(''port'', PInt 5432), (''host'', PStr ''x'')]"
    by (simp add: merged_value_def)
  from merge_recursive_right_biased
      [where self = "\<lparr>config_file = None,
                      config_tree = PDict [(''db'', PDict [(''port'', PInt 5432)])]\<rparr>"
        and d = "[(''db'', PDict [(''port'', PInt 5432)])]"
        and source = "[(''db'', PDict [(''host'', PStr ''x'')])]"] mv
  show ?thesis by simp
qed

subsection \<open>get\<close>

text \<open>
  Claim C3. For every store, key and default, \<^verbatim>\<open>get(key, default)\<close> returns normally:
  it returns the value the key path resolves to, and exactly the default when the path
  does not resolve (a segment is absent or a value on the way is not a mapping). On the
  empty store, where no key was ever set, it returns the default for every key.
\<close>

theorem get_total_default:
  "get self key d =
     (Inr (case lookup_path (config_tree self) (split_dot key) of Some v \<Rightarrow> v | None \<Rightarrow> d), self) \<and>
   get \<lparr>config_file = f, config_tree = PDict []\<rparr> key d =
     (Inr d, \<lparr>config_file = f, config_tree = PDict []\<rparr>)"
  by (simp add: get_eq lookup_path_empty)

subsection \<open>delete\<close>



subsection \<open>validate\<close>

text \<open>
  Claim C5, as stated, says that \<^verbatim>\<open>validate\<close> never raises. \<^verbatim>\<open>validate\<close> catches
  \<^verbatim>\<open>ValueError\<close> only. When the tree is the number 7, which \<^verbatim>\<open>load\<close> stores for a file
  whose content is \<^verbatim>\<open>7\<close>, the test \<^verbatim>\<open>key not in config\<close> raises a \<^verbatim>\<open>TypeError\<close> that
  leaves \<^verbatim>\<open>validate\<close>.
\<close>

theorem validate_raises_on_non_mapping:
  "validate \<lparr>config_file = None, config_tree = PInt 7\<rparr>
     [(''host'', SchemaValue (Some TStr) True None)]
   = (Inl TypeError, \<lparr>config_file = None, config_tree = PInt 7\<rparr>)"
  by (simp add: validate_def)

text \<open>
  Claim C5, amended. When the tree is a mapping, \<^verbatim>\<open>validate(schema)\<close> returns normally
  and leaves the object alone, and its result is whether the tree conforms to the schema
  (\<open>conforms\<close>): it is false when a required key of the schema is absent, false when a
  key is present with a value that is not an instance of its declared type, and true
  when every key is absent and not required or present with a matching type and,
  recursively, a conforming nested mapping; a nested schema is applied only to a value
  that is a mapping.
\<close>

theorem validate_conforms:
  "is_dict (config_tree self) \<Longrightarrow>
   validate self schema = (Inr (conforms (config_tree self) schema), self) \<and>
   (\<forall>(key, sv) \<in> set schema.
      sv_required sv \<and> lookup_path (config_tree self) [key] = None \<longrightarrow>
      validate self schema = (Inr False, self)) \<and>
   (\<forall>(key, sv) \<in> set schema. \<forall>config_value expected_type.
      lookup_path (config_tree self) [key] = Some config_value \<and>
      sv_type sv = Some expected_type \<and> \<not> isinstance config_value expected_type \<longrightarrow>
      validate self schema = (Inr False, self))"
proof -
  assume d: "is_dict (config_tree self)"
  then have v: "validate self schema = (Inr (conforms (config_tree self) schema), self)"
    by (simp add: validate_def validate_schema_conforms)
  have "\<not> conforms (config_tree self) schema"
    if "(key, sv) \<in> set schema" "sv_required sv" "lookup_path (config_tree self) [key] = None"
    for key sv
    using conforms_entry [of "config_tree self" schema key sv] that by auto
  moreover have "\<not> conforms (config_tree self) schema"
    if "(key, sv) \<in> set schema" "lookup_path (config_tree self) [key] = Some config_value"
       "sv_type sv = Some expected_type" "\<not> isinstance config_value expected_type"
    for key sv config_value expected_type
    using conforms_entry [of "config_tree self" schema key sv] that by auto
  ultimately show ?thesis using v by auto
qed

theorem validate_conforms_witness:
  "is_dict (config_tree \<lparr>config_file = None,
       config_tree = PDict [(''database'', PDict [(''host'', PStr ''localhost''),
                                                  (''port'', PStr ''5432'')])]\<rparr>) \<and>
   validate \<lparr>config_file = None,
       config_tree = PDict [(''database'', PDict [(''host'', PStr ''localhost''),
                                                  (''port'', PStr ''5432'')])]\<rparr>
     [(''database'', SchemaValue (Some TDict) False
         (Some [(''host'', SchemaValue (Some TStr) True None),
                (''port'', SchemaValue (Some TInt) True None)]))]
   = (Inr False, \<lparr>config_file = None,
       config_tree = PDict [(''database'', PDict [(''host'', PStr ''localhost''),
                                                  (''port'', PStr ''5432'')])]\<rparr>) \<and>
   validate \<lparr>config_file = None, config_tree = PDict [(''host'', PStr ''localhost'')]\<rparr>
     [(''host'', SchemaValue (Some TStr) True None),
      (''port'', SchemaValue (Some TInt) True None)]
   = (Inr False, \<lparr>config_file = None, config_tree = PDict [(''host'', PStr ''localhost'')]\<rparr>) \<and>
   validate \<lparr>config_file = None,
       config_tree = PDict [(''host'', PStr ''localhost''), (''port'', PInt 5432)]\<rparr>
     [(''host'', SchemaValue (Some TStr) True None),
      (''port'', SchemaValue (Some TInt) True None)]
   = (Inr True, \<lparr>config_file = None,
       config_tree = PDict [(''host'', PStr ''localhost''), (''port'', PInt 5432)]\<rparr>)"
proof -
  let ?c1 = "\<lparr>config_file = None,
       config_tree = PDict [(''database'', PDict [(''host'', PStr ''localhost''),
                                                  (''port'', PStr ''5432'')])]\<rparr>"
  let ?c2 = "\<lparr>config_file = None, config_tree = PDict [(''host'', PStr ''localhost'')]\<rparr>"
  let ?c3 = "\<lparr>config_file = None,
       config_tree = PDict [(''host'', PStr ''localhost''), (''port'', PInt 5432)]\<rparr>"
  have h1: "is_dict (config_tree ?c1)" and h2: "is_dict (config_tree ?c2)"
    and h3: "is_dict (config_tree ?c3)"
    by simp_all
  from validate_conforms [OF h1] validate_conforms [OF h2] validate_conforms [OF h3] h1
  show ?thesis by (simp add: conforms_Cons conforms_Nil)
qed

subsection \<open>load and save\<close>

text \<open>
  Claim C6. \<^verbatim>\<open>load(path)\<close> raises the \<^verbatim>\<open>ValueError\<close> for a missing path exactly when
  neither the argument nor the path given at construction is a non-empty string (Python's
  \<^verbatim>\<open>or\<close> and \<^verbatim>\<open>not\<close> take \<^verbatim>\<open>None\<close> and the empty string for no path); otherwise it
  raises \<^verbatim>\<open>FileNotFoundError\<close> exactly when the resolved path does not exist; otherwise,
  for a regular file, it raises the parse error exactly when the parser rejects the
  content; and when the parser accepts the content the parsed value replaces the whole tree.
\<close>

theorem load_outcomes:
  "(fst (load loads fs self path) = Inl ValueError \<longleftrightarrow>
      \<not> truthy path \<and> \<not> truthy (config_file self)) \<and>
   (fst (load loads fs self path) = Inl FileNotFoundError \<longleftrightarrow>
      truthy (py_or path (config_file self)) \<and>
      \<not> os_path_exists fs (the (py_or path (config_file self)))) \<and>
   (fst (load loads fs self path) = Inl JSONDecodeError \<longleftrightarrow>
      truthy (py_or path (config_file self)) \<and>
      (\<exists>text. fs (the (py_or path (config_file self))) = Some (RegularFile text) \<and>
              loads text = None)) \<and>
   (\<forall>text parsed.
      truthy (py_or path (config_file self)) \<and>
      fs (the (py_or path (config_file self))) = Some (RegularFile text) \<and>
      loads text = Some parsed \<longrightarrow>
      load loads fs self path = (Inr (), self\<lparr>config_tree := parsed\<rparr>))"
  by (auto simp: load_def Let_def py_or_def os_path_exists_def read_text_def
      split: option.splits fs_node.splits)

theorem load_outcomes_witness:
  "truthy (py_or (Some ''app.json'') (config_file \<lparr>config_file = None, config_tree = PDict []\<rparr>)) \<and>
   (Map.empty(''app.json'' \<mapsto> RegularFile ''{}''))
      (the (py_or (Some ''app.json'') (config_file \<lparr>config_file = None, config_tree = PDict []\<rparr>)))
     = Some (RegularFile ''{}'') \<and>
   (\<lambda>text. if text = ''{}'' then Some (PDict []) else None) ''{}'' = Some (PDict []) \<and>
   load (\<lambda>text. if text = ''{}'' then Some (PDict []) else None)
        (Map.empty(''app.json'' \<mapsto> RegularFile ''{}''))
        \<lparr>config_file = None, config_tree = PDict [(''a'', PInt 1)]\<rparr> (Some ''app.json'')
     = (Inr (), \<lparr>config_file = None, config_tree = PDict []\<rparr>)"
  using load_outcomes
      [of "\<lambda>text. if text = ''{}'' then Some (PDict []) else None"
          "Map.empty(''app.json'' \<mapsto> RegularFile ''{}'')"
          "\<lparr>config_file = None, config_tree = PDict [(''a'', PInt 1)]\<rparr>" "Some ''app.json''"]
  by (simp add: py_or_def truthy_def)

text \<open>
  Claim C8, at a path without a directory part. \<^verbatim>\<open>os.path.dirname("config.json")\<close> is
  the empty string and \<^verbatim>\<open>os.makedirs\<close> refuses it, so \<^verbatim>\<open>save("config.json")\<close> raises
  \<^verbatim>\<open>FileNotFoundError\<close> before the file is opened: nothing is written, for every tree,
  printer and file system, and a following \<^verbatim>\<open>load\<close> cannot reproduce the tree.
\<close>

theorem save_bare_file_name_fails:
  "save dumps fs self (Some ''config.json'') = ((Inl FileNotFoundError, self), fs)"
  by (simp add: save_def py_or_def truthy_def os_path_dirname_def os_makedirs_def)

text \<open>
  Claim C9. Whenever \<^verbatim>\<open>load\<close> raises, whatever the exception, the object after the call
  is the object before it: the tree is assigned only after the file has been read and
  parsed.
\<close>

theorem load_failure_keeps_tree:
  "fst (load loads fs self path) = Inl e \<Longrightarrow> snd (load loads fs self path) = self"
  by (auto simp: load_def Let_def read_text_def split: option.splits fs_node.splits if_splits)

theorem load_failure_keeps_tree_witness:
  "fst (load (\<lambda>text. None) (Map.empty(''bad.json'' \<mapsto> RegularFile ''{''))
          \<lparr>config_file = None, config_tree = PDict [(''a'', PInt 1)]\<rparr> (Some ''bad.json''))
     = Inl JSONDecodeError \<and>
   snd (load (\<lambda>text. None) (Map.empty(''bad.json'' \<mapsto> RegularFile ''{''))
          \<lparr>config_file = None, config_tree = PDict [(''a'', PInt 1)]\<rparr> (Some ''bad.json''))
     = \<lparr>config_file = None, config_tree = PDict [(''a'', PInt 1)]\<rparr>"
proof -
  have h: "fst (load (\<lambda>text. None) (Map.empty(''bad.json'' \<mapsto> RegularFile ''{''))
          \<lparr>config_file = None, config_tree = PDict [(''a'', PInt 1)]\<rparr> (Some ''bad.json''))
     = Inl JSONDecodeError"
    by (simp add: load_def py_or_def truthy_def os_path_exists_def read_text_def)
  from load_failure_keeps_tree [OF h] h show ?thesis by simp
qed

subsection \<open>has\<close>

text \<open>
  Claim C7. For every store and key, \<^verbatim>\<open>has(key)\<close> returns whether \<^verbatim>\<open>get(key)\<close> with the
  default \<^verbatim>\<open>None\<close> yields a value other than \<^verbatim>\<open>None\<close>; so it is false both when the
  key path does not resolve and when it resolves to a stored \<^verbatim>\<open>None\<close>.
\<close>

theorem has_iff_get_not_none:
  "has self key = (Inr (fst (get self key PNone) \<noteq> Inr PNone), self) \<and>
   has self key =
     (Inr (lookup_path (config_tree self) (split_dot key) \<notin> {None, Some PNone}), self)"
  by (auto simp: has_def get_eq split: option.splits)

subsection \<open>The observers\<close>

text \<open>
  Claim C10. \<^verbatim>\<open>get\<close>, \<^verbatim>\<open>has\<close>, \<^verbatim>\<open>list_sections\<close> and \<^verbatim>\<open>validate\<close> leave the object as
  it was, for every store and every argument, whether they return or raise.
\<close>

theorem observers_keep_tree:
  "snd (get self key d) = self \<and> snd (has self key) = self \<and>
   snd (list_sections self) = self \<and> snd (validate self schema) = self"
proof -
  have "snd (list_sections self) = self"
    by (simp add: list_sections_def split: pyval.splits)
  moreover have "snd (validate self schema) = self"
    by (simp add: validate_def split: sum.splits py_error.splits)
  ultimately show ?thesis by (simp add: get_eq has_def)
qed

end
